theory Spec2Isabelle
  imports Main "HOL-Library.Word"
begin

unbundle bit_operations_syntax

section \<open>The consistent hash ring of package consistenthash\<close>

text \<open>
  The package has one source file, \<^verbatim>\<open>consistenthash.go\<close>. A ring is a struct with a
  map from positions (\<^verbatim>\<open>uint32\<close>) to node identifiers and a sorted slice of the positions.
  Go's \<^verbatim>\<open>uint32\<close> is a 32-bit word, a \<^verbatim>\<open>byte\<close> an 8-bit word, and a Go string is a
  sequence of bytes, as a HOL \<^typ>\<open>string\<close> is a list of 8-bit characters.
\<close>

type_synonym u32 = "32 word"
type_synonym byte = "8 word"

subsection \<open>The standard library functions the package calls\<close>

text \<open>
  Modelled from the spec: \<^verbatim>\<open>crc32.ChecksumIEEE\<close> belongs to Go's standard library
  (package \<^verbatim>\<open>hash/crc32\<close>), whose code is not among the sources. The spec describes the
  hash as the CRC32 checksum with the IEEE polynomial. \<open>crc32_ieee\<close> is that checksum as
  it is defined, one bit at a time: the register starts as the complement of 0; every
  input byte is XORed into the low byte of the register and followed by eight shift steps,
  each of which shifts the register right by one bit and XORs the reversed polynomial
  \<^verbatim>\<open>0xedb88320\<close> into it when the bit shifted out is 1; the checksum is the complement of
  the register.
\<close>

definition IEEE :: u32 where
  "IEEE = 0xedb88320"

definition crc_shift :: "u32 \<Rightarrow> u32" where
  "crc_shift crc = (if crc AND 1 = 1 then drop_bit 1 crc XOR IEEE else drop_bit 1 crc)"

fun crc_bits :: "nat \<Rightarrow> u32 \<Rightarrow> u32" where
  "crc_bits 0 crc = crc"
| "crc_bits (Suc j) crc = crc_bits j (crc_shift crc)"

fun crc_update :: "u32 \<Rightarrow> byte list \<Rightarrow> u32" where
  "crc_update crc [] = crc"
| "crc_update crc (v # p) = crc_update (crc_bits 8 (crc XOR ucast v)) p"

definition crc32_ieee :: "byte list \<Rightarrow> u32" where
  "crc32_ieee data = NOT (crc_update (NOT 0) data)"

text \<open>
  Modelled from the spec: the library function itself, which computes the checksum a byte
  at a time from a table of 256 entries. Its portable algorithm is
  \<^verbatim>\<open>crc = ^crc; for _, v := range p { crc = tab[byte(crc)^v] ^ (crc >> 8) }; return ^crc\<close>
  (\<^verbatim>\<open>simpleUpdate\<close>), where entry \<open>i\<close> of the table is the outcome of
  \<^verbatim>\<open>crc := uint32(i); for j := 0; j < 8; j++ { if crc&1 == 1 { crc = (crc >> 1) ^ poly } else { crc >>= 1 } }\<close>
  (\<^verbatim>\<open>simpleMakeTable\<close>), and \<^verbatim>\<open>ChecksumIEEE(data)\<close> updates the checksum 0 of the empty input
  with the table of the IEEE polynomial. The table is a function from the index to the entry.
\<close>

fun populate_loop :: "u32 \<Rightarrow> nat \<Rightarrow> u32 \<Rightarrow> u32" where
  "populate_loop poly 0 crc = crc"
| "populate_loop poly (Suc j) crc =
     populate_loop poly j (if crc AND 1 = 1 then drop_bit 1 crc XOR poly else drop_bit 1 crc)"

definition simpleMakeTable :: "u32 \<Rightarrow> byte \<Rightarrow> u32" where
  "simpleMakeTable poly i = populate_loop poly 8 (ucast i)"

fun simpleUpdate_loop :: "(byte \<Rightarrow> u32) \<Rightarrow> u32 \<Rightarrow> byte list \<Rightarrow> u32" where
  "simpleUpdate_loop tab crc [] = crc"
| "simpleUpdate_loop tab crc (v # p) =
     simpleUpdate_loop tab (tab (ucast crc XOR v) XOR drop_bit 8 crc) p"

definition simpleUpdate :: "u32 \<Rightarrow> (byte \<Rightarrow> u32) \<Rightarrow> byte list \<Rightarrow> u32" where
  "simpleUpdate crc tab p = NOT (simpleUpdate_loop tab (NOT crc) p)"

definition ChecksumIEEE :: "byte list \<Rightarrow> u32" where
  "ChecksumIEEE data = simpleUpdate 0 (simpleMakeTable IEEE) data"

text \<open>
  \<^verbatim>\<open>sort.Search(n, f)\<close> of Go's standard library: the binary search
  \<^verbatim>\<open>i, j := 0, n; for i < j { h := int(uint(i+j) >> 1); if !f(h) { i = h + 1 } else { j = h } }; return i\<close>.
  Indices are natural numbers here: \<open>n\<close> is the length of a slice, so \<open>i + j\<close> fits the
  unsigned machine word that the library computes the midpoint in.
\<close>

function Search_loop :: "nat \<Rightarrow> nat \<Rightarrow> (nat \<Rightarrow> bool) \<Rightarrow> nat" where
  "Search_loop i j f =
     (if i < j then
        (let h = (i + j) div 2 in
         if \<not> f h then Search_loop (h + 1) j f else Search_loop i h f)
      else i)"
  by pat_completeness auto
termination
  by (relation "measure (\<lambda>(i, j, f). j - i)") auto

declare Search_loop.simps [simp del]

definition Search :: "nat \<Rightarrow> (nat \<Rightarrow> bool) \<Rightarrow> nat" where
  "Search n f = Search_loop 0 n f"

text \<open>
  \<^verbatim>\<open>sort.Slice(s, less)\<close> of Go's standard library rearranges \<open>s\<close> in place into an order
  in which no element is \<open>less\<close> than an earlier one. The sort is not stable, but the
  package sorts \<^verbatim>\<open>uint32\<close> values by \<^verbatim>\<open><\<close>, a total order in which equal elements are
  indistinguishable, so the outcome is the one ascending arrangement of the slice's
  elements, which is what \<^const>\<open>sort\<close> computes.
\<close>

definition sortSlice :: "u32 list \<Rightarrow> u32 list" where
  "sortSlice s = sort s"

subsection \<open>The ring\<close>

text \<open>
  \<^verbatim>\<open>type ConsistentHash struct { mu sync.RWMutex; nodes map[uint32]string; hashRing []uint32 }\<close>.
  The model is sequential: every exported method takes \<^verbatim>\<open>mu\<close> on entry and releases it on
  return (\<^verbatim>\<open>defer\<close>), so between two calls the mutex is always free and it is not a field
  of the record. Rings are built by \<^verbatim>\<open>New\<close>, which allocates the map: the zero value of
  the struct, with a nil map, is not a value of the record. Reading a key that is absent
  from the map gives the zero value of the element type, the empty string.
\<close>

record ConsistentHash =
  nodes :: "u32 \<rightharpoonup> string"
  hashRing :: "u32 list"

definition mapIndex :: "(u32 \<rightharpoonup> string) \<Rightarrow> u32 \<Rightarrow> string" where
  "mapIndex m k = (case m k of None \<Rightarrow> [] | Some v \<Rightarrow> v)"

text \<open>\<^verbatim>\<open>[]byte(key)\<close>: the bytes of the string.\<close>

definition bytes :: "string \<Rightarrow> byte list" where
  "bytes key = map (\<lambda>c. of_nat (of_char c)) key"

text \<open>
  \<^verbatim>\<open>func (h *ConsistentHash) hashKey(key string) uint32\<close> is a method: it receives the ring,
  and the model keeps that argument.
\<close>

definition hashKey :: "ConsistentHash \<Rightarrow> string \<Rightarrow> u32" where
  "hashKey h key = ChecksumIEEE (bytes key)"

definition addNode :: "ConsistentHash \<Rightarrow> string \<Rightarrow> ConsistentHash" where
  "addNode h nodeID =
     (let hash = hashKey h nodeID in
      if nodes h hash \<noteq> None then h
      else h\<lparr>nodes := (nodes h)(hash \<mapsto> nodeID),
             hashRing := sortSlice (hashRing h @ [hash])\<rparr>)"

definition AddNode :: "ConsistentHash \<Rightarrow> string \<Rightarrow> ConsistentHash" where
  "AddNode h nodeID = addNode h nodeID"

text \<open>
  \<^verbatim>\<open>New\<close> allocates the empty ring and runs \<^verbatim>\<open>for _, nodeID := range nodeIDs { h.addNode(nodeID) }\<close>.
\<close>

fun New_loop :: "ConsistentHash \<Rightarrow> string list \<Rightarrow> ConsistentHash" where
  "New_loop h [] = h"
| "New_loop h (nodeID # nodeIDs) = New_loop (addNode h nodeID) nodeIDs"

definition New :: "string list \<Rightarrow> ConsistentHash" where
  "New nodeIDs = New_loop \<lparr>nodes = Map.empty, hashRing = []\<rparr> nodeIDs"

text \<open>
  The loop of \<^verbatim>\<open>RemoveNode\<close>, \<^verbatim>\<open>for i, v := range h.hashRing { if v == hash { ...; break } }\<close>,
  finds the first index that holds \<open>hash\<close>; the body then replaces the slice by
  \<^verbatim>\<open>append(h.hashRing[:i], h.hashRing[i+1:]...)\<close> and leaves the loop.
\<close>

fun rangeFind :: "u32 \<Rightarrow> nat \<Rightarrow> u32 list \<Rightarrow> nat option" where
  "rangeFind hash i [] = None"
| "rangeFind hash i (v # vs) = (if v = hash then Some i else rangeFind hash (Suc i) vs)"

definition RemoveNode :: "ConsistentHash \<Rightarrow> string \<Rightarrow> ConsistentHash" where
  "RemoveNode h nodeID =
     (let hash = hashKey h nodeID in
      if nodes h hash = None then h
      else
        (let h' = h\<lparr>nodes := (nodes h)(hash := None)\<rparr> in
         case rangeFind hash 0 (hashRing h') of
           None \<Rightarrow> h'
         | Some i \<Rightarrow> h'\<lparr>hashRing := take i (hashRing h') @ drop (i + 1) (hashRing h')\<rparr>))"

text \<open>
  \<^verbatim>\<open>GetNode\<close> returns a string and writes nothing to the ring. The model returns the
  ring beside the result, so that "the ring is unchanged" is a statement, and makes the
  run-time check of the index expression \<^verbatim>\<open>h.hashRing[idx]\<close> a branch of its own.
\<close>

datatype panic = IndexOutOfRange

definition GetNode :: "ConsistentHash \<Rightarrow> string \<Rightarrow> (panic + string) \<times> ConsistentHash" where
  "GetNode h key =
     (if length (hashRing h) = 0 then (Inr [], h)
      else
        (let hash = hashKey h key;
             idx = Search (length (hashRing h)) (\<lambda>i. hashRing h ! i \<ge> hash);
             idx = (if idx = length (hashRing h) then 0 else idx)
         in if idx < length (hashRing h)
            then (Inr (mapIndex (nodes h) (hashRing h ! idx)), h)
            else (Inl IndexOutOfRange, h)))"

subsection \<open>Reachable rings and the ring invariant\<close>

text \<open>
  The fields of the struct are not exported: a ring is what \<^verbatim>\<open>New\<close> returns, changed by
  calls of the exported methods.
\<close>

inductive reachable :: "ConsistentHash \<Rightarrow> bool" where
  reachable_New: "reachable (New nodeIDs)"
| reachable_AddNode: "reachable h \<Longrightarrow> reachable (AddNode h nodeID)"
| reachable_RemoveNode: "reachable h \<Longrightarrow> reachable (RemoveNode h nodeID)"
| reachable_GetNode: "reachable h \<Longrightarrow> reachable (snd (GetNode h key))"

definition ring_inv :: "ConsistentHash \<Rightarrow> bool" where
  "ring_inv h \<longleftrightarrow> sorted_wrt (<) (hashRing h) \<and> set (hashRing h) = dom (nodes h)"

subsection \<open>The successor of a hash on the ring\<close>

text \<open>
  The spec's glossary: the successor of a hash is the smallest position that is at least the
  hash, and the smallest position of all if there is none (wrap-around). These two functions
  say that, and what follows a position \<open>p\<close> clockwise, in terms of the set of positions; they
  are not taken from the code, which is compared with them.
\<close>

definition successor :: "u32 list \<Rightarrow> u32 \<Rightarrow> u32" where
  "successor ring hash =
     (if \<exists>p\<in>set ring. hash \<le> p then Min {p \<in> set ring. hash \<le> p} else Min (set ring))"

definition clockwise_next :: "u32 list \<Rightarrow> u32 \<Rightarrow> u32" where
  "clockwise_next ring p =
     (if \<exists>q\<in>set ring. p < q then Min {q \<in> set ring. p < q} else Min (set ring))"

text \<open>Every identifier in the map sits at the position that is its own hash.\<close>

definition owner_inv :: "ConsistentHash \<Rightarrow> bool" where
  "owner_inv h \<longleftrightarrow> (\<forall>p x. nodes h p = Some x \<longrightarrow> hashKey h x = p)"

section \<open>Auxiliary facts\<close>

subsection \<open>The table-driven checksum is the bitwise one\<close>

lemma and_1_iff: "(x::u32) AND 1 = 1 \<longleftrightarrow> odd x"
  by (simp add: and_one_eq odd_iff_mod_2_eq_one)

lemma crc_shift_xor: "crc_shift (a XOR b) = crc_shift a XOR crc_shift b"
proof -
  have d: "drop_bit 1 (a XOR b) = drop_bit 1 a XOR drop_bit 1 b"
    by (rule bit_eqI) (simp add: bit_simps)
  have x1: "(p XOR i) XOR q = (p XOR q) XOR i" for p q i :: u32
    by (simp add: ac_simps)
  have x2: "p XOR (q XOR i) = (p XOR q) XOR i" for p q i :: u32
    by (simp add: ac_simps)
  have x3: "(p XOR i) XOR i = p" for p i :: u32
    by (rule bit_eqI) (auto simp: bit_simps)
  show ?thesis
    by (simp add: crc_shift_def and_1_iff even_xor_iff d x1 x2 x3)
qed

lemma crc_bits_xor: "crc_bits n (a XOR b) = crc_bits n a XOR crc_bits n b"
  by (induction n arbitrary: a b) (simp_all add: crc_shift_xor)

lemma crc_bits_low_zero: "take_bit n y = 0 \<Longrightarrow> crc_bits n y = drop_bit n y"
proof (induction n arbitrary: y)
  case 0
  then show ?case by simp
next
  case (Suc n)
  have "even (take_bit (Suc n) y)" using Suc.prems by simp
  then have e: "even y" by (simp add: even_take_bit_eq)
  then have s: "crc_shift y = drop_bit 1 y" by (simp add: crc_shift_def and_1_iff)
  have "take_bit n (drop_bit 1 y) = drop_bit 1 (take_bit (Suc n) y)"
    by (rule bit_eqI) (auto simp: bit_simps)
  with Suc.prems have "take_bit n (drop_bit 1 y) = 0" by simp
  from Suc.IH [OF this] s show ?case by (simp add: drop_bit_drop_bit)
qed

lemma split_low_byte:
  fixes c :: u32 and v :: byte
  shows "c XOR ucast v = push_bit 8 (drop_bit 8 c) XOR ucast (ucast c XOR v :: byte)"
  by (rule bit_eqI) (auto simp: bit_simps)

lemma drop_push_8: "drop_bit 8 (push_bit 8 (drop_bit 8 (c::u32))) = drop_bit 8 c"
  by (rule bit_eqI) (auto simp: bit_simps dest: bit_imp_le_length)

lemma populate_loop_IEEE: "populate_loop IEEE n c = crc_bits n c"
  by (induction n arbitrary: c) (simp_all add: crc_shift_def)

lemma table_step:
  fixes c :: u32 and v :: byte
  shows "simpleMakeTable IEEE (ucast c XOR v) XOR drop_bit 8 c = crc_bits 8 (c XOR ucast v)"
proof -
  have "take_bit 8 (push_bit 8 (drop_bit 8 c)) = 0"
    by (simp add: take_bit_push_bit)
  then have "crc_bits 8 (push_bit 8 (drop_bit 8 c)) = drop_bit 8 c"
    by (simp add: crc_bits_low_zero drop_push_8)
  then have "crc_bits 8 (c XOR ucast v)
      = drop_bit 8 c XOR crc_bits 8 (ucast (ucast c XOR v :: byte))"
    by (subst split_low_byte) (simp only: crc_bits_xor)
  then show ?thesis
    by (simp add: simpleMakeTable_def populate_loop_IEEE ac_simps)
qed

lemma simpleUpdate_loop_IEEE:
  "simpleUpdate_loop (simpleMakeTable IEEE) crc p = crc_update crc p"
  by (induction p arbitrary: crc) (simp_all add: table_step del: crc_bits.simps)

lemma ChecksumIEEE_crc32_ieee: "ChecksumIEEE data = crc32_ieee data"
  by (simp add: ChecksumIEEE_def simpleUpdate_def crc32_ieee_def simpleUpdate_loop_IEEE)

subsection \<open>Binary search\<close>

lemma Search_loop_correct:
  assumes "\<forall>a b. a \<le> b \<and> b < n \<and> f a \<longrightarrow> f b"
    and "i \<le> j" and "j \<le> n"
    and "\<forall>k<i. \<not> f k" and "\<forall>k. j \<le> k \<and> k < n \<longrightarrow> f k"
  shows "i \<le> Search_loop i j f \<and> Search_loop i j f \<le> j
       \<and> (\<forall>k<Search_loop i j f. \<not> f k)
       \<and> (\<forall>k. Search_loop i j f \<le> k \<and> k < n \<longrightarrow> f k)"
  using assms
proof (induction i j f rule: Search_loop.induct)
  case (1 i j f)
  show ?case
  proof (cases "i < j")
    case False
    then have "Search_loop i j f = i"
      by (subst Search_loop.simps) simp
    with False "1.prems" show ?thesis by simp
  next
    case True
    define h where "h = (i + j) div 2"
    have hb: "i \<le> h" "h < j" using True by (simp_all add: h_def)
    show ?thesis
    proof (cases "f h")
      case False
      have lo: "\<forall>k<h + 1. \<not> f k"
      proof (intro allI impI)
        fix k assume "k < h + 1"
        show "\<not> f k"
        proof
          assume "f k"
          with "1.prems"(1) \<open>k < h + 1\<close> hb "1.prems"(3) have "f h"
            by (metis Suc_eq_plus1 less_Suc_eq_le less_le_trans)
          with False show False by simp
        qed
      qed
      have eq: "Search_loop i j f = Search_loop (h + 1) j f"
        using True False by (simp add: Search_loop.simps [of i j f] h_def Let_def)
      have "h + 1 \<le> Search_loop (h + 1) j f \<and> Search_loop (h + 1) j f \<le> j
          \<and> (\<forall>k<Search_loop (h + 1) j f. \<not> f k)
          \<and> (\<forall>k. Search_loop (h + 1) j f \<le> k \<and> k < n \<longrightarrow> f k)"
        using "1.IH"(1) [OF True h_def False "1.prems"(1) _ "1.prems"(3) lo "1.prems"(5)] hb
        by simp
      with eq hb show ?thesis by simp
    next
      case fh: True
      have hi: "\<forall>k. h \<le> k \<and> k < n \<longrightarrow> f k"
        using "1.prems"(1) fh by blast
      have eq: "Search_loop i j f = Search_loop i h f"
        using True fh by (simp add: Search_loop.simps [of i j f] h_def Let_def)
      have "i \<le> Search_loop i h f \<and> Search_loop i h f \<le> h
          \<and> (\<forall>k<Search_loop i h f. \<not> f k)
          \<and> (\<forall>k. Search_loop i h f \<le> k \<and> k < n \<longrightarrow> f k)"
        using "1.IH"(2) [OF True h_def _ "1.prems"(1) hb(1) _ "1.prems"(4) hi] fh hb "1.prems"(3)
        by simp
      with eq hb show ?thesis by simp
    qed
  qed
qed

lemma Search_loop_bounds: "i \<le> j \<Longrightarrow> i \<le> Search_loop i j f \<and> Search_loop i j f \<le> j"
proof (induction i j f rule: Search_loop.induct)
  case (1 i j f)
  show ?case
  proof (cases "i < j")
    case False
    then have "Search_loop i j f = i"
      by (subst Search_loop.simps) simp
    with False "1.prems" show ?thesis by simp
  next
    case True
    define h where "h = (i + j) div 2"
    have hb: "i \<le> h" "h < j" using True by (simp_all add: h_def)
    show ?thesis
    proof (cases "f h")
      case False
      have "Search_loop i j f = Search_loop (h + 1) j f"
        using True False by (simp add: Search_loop.simps [of i j f] h_def Let_def)
      moreover have "h + 1 \<le> Search_loop (h + 1) j f \<and> Search_loop (h + 1) j f \<le> j"
        using "1.IH"(1) [OF True h_def False] hb by simp
      ultimately show ?thesis using hb by simp
    next
      case fh: True
      have "Search_loop i j f = Search_loop i h f"
        using True fh by (simp add: Search_loop.simps [of i j f] h_def Let_def)
      moreover have "i \<le> Search_loop i h f \<and> Search_loop i h f \<le> h"
        using "1.IH"(2) [OF True h_def] fh hb by simp
      ultimately show ?thesis using hb by simp
    qed
  qed
qed

text \<open>
  The search calls its predicate only at indices from \<open>i\<close> up to, but not including, \<open>j\<close>:
  what the predicate is elsewhere does not matter. So the closure of \<^verbatim>\<open>GetNode\<close>, which
  indexes the position sequence, is never called with an index out of range.
\<close>

lemma Search_loop_in_range:
  "(\<And>k. i \<le> k \<Longrightarrow> k < j \<Longrightarrow> f k = g k) \<Longrightarrow> Search_loop i j f = Search_loop i j g"
proof (induction i j f rule: Search_loop.induct)
  case (1 i j f)
  show ?case
  proof (cases "i < j")
    case False
    then show ?thesis
      by (simp add: Search_loop.simps [of i j f] Search_loop.simps [of i j g])
  next
    case True
    define h where "h = (i + j) div 2"
    have hb: "i \<le> h" "h < j" using True by (simp_all add: h_def)
    then have fg: "f h = g h" by (rule "1.prems")
    show ?thesis
    proof (cases "f h")
      case False
      have "Search_loop (h + 1) j f = Search_loop (h + 1) j g"
        using "1.IH"(1) [OF True h_def False] "1.prems" hb by simp
      with True False fg show ?thesis
        by (simp add: Search_loop.simps [of i j f] Search_loop.simps [of i j g] h_def Let_def)
    next
      case fh: True
      have "Search_loop i h f = Search_loop i h g"
        using "1.IH"(2) [OF True h_def] fh "1.prems" hb by simp
      with True fh fg show ?thesis
        by (simp add: Search_loop.simps [of i j f] Search_loop.simps [of i j g] h_def Let_def)
    qed
  qed
qed

lemma Search_sorted:
  fixes hash :: u32
  assumes "sorted xs"
  defines "r \<equiv> Search (length xs) (\<lambda>i. hash \<le> xs ! i)"
  shows "r \<le> length xs" and "\<forall>k<r. xs ! k < hash"
    and "\<forall>k. r \<le> k \<and> k < length xs \<longrightarrow> hash \<le> xs ! k"
proof -
  have mono: "\<forall>a b. a \<le> b \<and> b < length xs \<and> hash \<le> xs ! a \<longrightarrow> hash \<le> xs ! b"
    using assms(1) by (meson order_trans sorted_nth_mono)
  have "0 \<le> Search_loop 0 (length xs) (\<lambda>i. hash \<le> xs ! i)
      \<and> Search_loop 0 (length xs) (\<lambda>i. hash \<le> xs ! i) \<le> length xs
      \<and> (\<forall>k<Search_loop 0 (length xs) (\<lambda>i. hash \<le> xs ! i). \<not> hash \<le> xs ! k)
      \<and> (\<forall>k. Search_loop 0 (length xs) (\<lambda>i. hash \<le> xs ! i) \<le> k \<and> k < length xs
             \<longrightarrow> hash \<le> xs ! k)"
    by (rule Search_loop_correct [OF mono]) auto
  then show "r \<le> length xs" and "\<forall>k<r. xs ! k < hash"
    and "\<forall>k. r \<le> k \<and> k < length xs \<longrightarrow> hash \<le> xs ! k"
    by (simp_all add: r_def Search_def not_le)
qed

lemma sorted_nth0_Min: "sorted xs \<Longrightarrow> xs \<noteq> [] \<Longrightarrow> xs ! 0 = Min (set xs)"
  by (cases xs) (auto intro!: Min_eqI [symmetric])

lemma selected_successor:
  fixes hash :: u32
  assumes "sorted xs" and "xs \<noteq> []"
  defines "r \<equiv> Search (length xs) (\<lambda>i. hash \<le> xs ! i)"
  shows "xs ! (if r = length xs then 0 else r) = successor xs hash"
proof (cases "r = length xs")
  case True
  have "\<forall>k<length xs. xs ! k < hash"
    using Search_sorted(2) [OF assms(1), of hash] True by (simp add: r_def)
  then have "\<not> (\<exists>p\<in>set xs. hash \<le> p)"
    by (auto simp: in_set_conv_nth not_le)
  with True assms(1,2) show ?thesis
    by (simp add: successor_def sorted_nth0_Min)
next
  case False
  have rlt: "r < length xs"
    using Search_sorted(1) [OF assms(1), of hash] False by (simp add: r_def)
  have ge: "hash \<le> xs ! r"
    using Search_sorted(3) [OF assms(1), of hash] rlt by (simp add: r_def)
  have least: "xs ! r \<le> p" if "p \<in> set xs" "hash \<le> p" for p
  proof -
    from that(1) obtain k where k: "k < length xs" "xs ! k = p"
      by (auto simp: in_set_conv_nth)
    have "r \<le> k"
    proof (rule ccontr)
      assume "\<not> r \<le> k"
      then have "xs ! k < hash"
        using Search_sorted(2) [OF assms(1), of hash] by (simp add: r_def)
      with k that(2) show False by simp
    qed
    with assms(1) k show ?thesis
      by (auto dest: sorted_nth_mono)
  qed
  have "Min {p \<in> set xs. hash \<le> p} = xs ! r"
    by (rule Min_eqI) (use rlt ge least in auto)
  moreover have "\<exists>p\<in>set xs. hash \<le> p"
    using rlt ge by (auto intro: bexI [of _ "xs ! r"])
  ultimately show ?thesis
    using False by (simp add: successor_def)
qed

lemma snd_GetNode: "snd (GetNode h key) = h"
  by (simp add: GetNode_def Let_def)

lemma GetNode_no_panic: "\<exists>s. fst (GetNode h key) = Inr s"
proof (cases "hashRing h = []")
  case True
  then show ?thesis by (simp add: GetNode_def)
next
  case False
  have "Search (length (hashRing h)) (\<lambda>i. hashKey h key \<le> hashRing h ! i) \<le> length (hashRing h)"
    using Search_loop_bounds [of 0 "length (hashRing h)"] by (simp add: Search_def)
  with False show ?thesis
    by (auto simp: GetNode_def Let_def)
qed

lemma fst_GetNode:
  assumes "sorted (hashRing h)" and "hashRing h \<noteq> []"
  shows "fst (GetNode h key)
       = Inr (mapIndex (nodes h) (successor (hashRing h) (hashKey h key)))"
proof -
  define r where "r = Search (length (hashRing h)) (\<lambda>i. hashKey h key \<le> hashRing h ! i)"
  have "r \<le> length (hashRing h)"
    using Search_sorted(1) [OF assms(1)] by (simp add: r_def)
  then have "(if r = length (hashRing h) then 0 else r) < length (hashRing h)"
    using assms(2) by auto
  moreover have "hashRing h ! (if r = length (hashRing h) then 0 else r)
      = successor (hashRing h) (hashKey h key)"
    unfolding r_def by (rule selected_successor [OF assms])
  ultimately show ?thesis
    using assms(2) by (auto simp: GetNode_def Let_def r_def [symmetric] split: if_splits)
qed

lemma rangeFind_None: "rangeFind hash i xs = None \<longleftrightarrow> hash \<notin> set xs"
  by (induction xs arbitrary: i) auto

lemma rangeFind_Some:
  "rangeFind hash i xs = Some j \<Longrightarrow>
     i \<le> j \<and> take (j - i) xs @ drop (j - i + 1) xs = remove1 hash xs"
proof (induction xs arbitrary: i)
  case Nil
  then show ?case by simp
next
  case (Cons v vs)
  show ?case
  proof (cases "v = hash")
    case True
    with Cons.prems show ?thesis by simp
  next
    case False
    with Cons.prems have "rangeFind hash (Suc i) vs = Some j" by simp
    from Cons.IH [OF this] have "Suc i \<le> j"
      and "take (j - Suc i) vs @ drop (j - Suc i + 1) vs = remove1 hash vs" by simp_all
    moreover from \<open>Suc i \<le> j\<close> have "j - i = Suc (j - Suc i)" by simp
    ultimately show ?thesis using False by simp
  qed
qed

lemma hashKey_indep: "hashKey h key = hashKey h' key"
  by (simp add: hashKey_def)

lemma nodes_RemoveNode: "nodes (RemoveNode h x) = (nodes h)(hashKey h x := None)"
  by (auto simp: RemoveNode_def Let_def split: option.splits)

lemma hashRing_RemoveNode:
  "hashRing (RemoveNode h x)
     = (if nodes h (hashKey h x) = None then hashRing h else remove1 (hashKey h x) (hashRing h))"
proof (cases "rangeFind (hashKey h x) 0 (hashRing h)")
  case None
  then have "remove1 (hashKey h x) (hashRing h) = hashRing h"
    by (simp add: rangeFind_None remove1_idem)
  with None show ?thesis
    by (simp add: RemoveNode_def Let_def)
next
  case (Some i)
  from rangeFind_Some [OF this] Some show ?thesis
    by (simp add: RemoveNode_def Let_def)
qed

lemma nodes_addNode:
  "nodes (addNode h x)
     = (if nodes h (hashKey h x) \<noteq> None then nodes h else (nodes h)(hashKey h x \<mapsto> x))"
  by (simp add: addNode_def Let_def)

lemma hashRing_addNode:
  "hashRing (addNode h x)
     = (if nodes h (hashKey h x) \<noteq> None then hashRing h
        else sort (hashRing h @ [hashKey h x]))"
  by (simp add: addNode_def Let_def sortSlice_def)

lemma addNode_ring_inv: "ring_inv h \<Longrightarrow> ring_inv (addNode h x)"
  by (auto simp: ring_inv_def strict_sorted_iff nodes_addNode hashRing_addNode)

lemma RemoveNode_ring_inv: "ring_inv h \<Longrightarrow> ring_inv (RemoveNode h x)"
  by (auto simp: ring_inv_def strict_sorted_iff nodes_RemoveNode hashRing_RemoveNode
      sorted_remove1)

lemma New_loop_ring_inv: "ring_inv h \<Longrightarrow> ring_inv (New_loop h xs)"
  by (induction xs arbitrary: h) (simp_all add: addNode_ring_inv)

lemma New_ring_inv: "ring_inv (New xs)"
  unfolding New_def by (rule New_loop_ring_inv) (simp add: ring_inv_def)

lemma reachable_ring_inv: "reachable h \<Longrightarrow> ring_inv h"
  by (induction rule: reachable.induct)
     (simp_all add: New_ring_inv AddNode_def addNode_ring_inv RemoveNode_ring_inv snd_GetNode)

lemma addNode_owner_inv: "owner_inv h \<Longrightarrow> owner_inv (addNode h x)"
  by (auto simp: owner_inv_def nodes_addNode hashKey_def split: if_splits)

lemma RemoveNode_owner_inv: "owner_inv h \<Longrightarrow> owner_inv (RemoveNode h x)"
  by (auto simp: owner_inv_def nodes_RemoveNode hashKey_def split: if_splits)

lemma New_loop_owner_inv: "owner_inv h \<Longrightarrow> owner_inv (New_loop h xs)"
  by (induction xs arbitrary: h) (simp_all add: addNode_owner_inv)

lemma New_owner_inv: "owner_inv (New xs)"
  unfolding New_def by (rule New_loop_owner_inv) (simp add: owner_inv_def)

lemma reachable_owner_inv: "reachable h \<Longrightarrow> owner_inv h"
  by (induction rule: reachable.induct)
     (simp_all add: New_owner_inv AddNode_def addNode_owner_inv RemoveNode_owner_inv snd_GetNode)

lemma sort_snoc_sorted: "sorted xs \<Longrightarrow> sort (xs @ [p]) = insort p xs"
proof (induction xs)
  case Nil
  then show ?case by simp
next
  case (Cons x xs)
  then have "sort ((x # xs) @ [p]) = insort x (insort p xs)" by simp
  also have "\<dots> = insort p (insort x xs)" by (rule insort_left_comm)
  also have "insort x xs = x # xs" using Cons.prems by (simp add: insort_is_Cons)
  finally show ?case .
qed

lemma AddNode_absorb: "nodes h (hashKey h x) \<noteq> None \<Longrightarrow> AddNode h x = h"
  by (simp add: AddNode_def addNode_def)

lemma nodes_AddNode_hash: "nodes (AddNode h x) (hashKey h x) \<noteq> None"
  by (simp add: AddNode_def nodes_addNode)

lemma RemoveNode_absent: "nodes h (hashKey h x) = None \<Longrightarrow> RemoveNode h x = h"
  by (simp add: RemoveNode_def)

lemma New_loop_foldl: "New_loop h ids = foldl AddNode h ids"
  by (induction ids arbitrary: h) (simp_all add: AddNode_def)

lemma nodes_New_loop:
  "nodes (New_loop h ids) p
     = (case nodes h p of Some v \<Rightarrow> Some v | None \<Rightarrow> find (\<lambda>x. hashKey h' x = p) ids)"
proof (induction ids arbitrary: h)
  case Nil
  then show ?case by (simp split: option.splits)
next
  case (Cons x xs)
  show ?case
    by (auto simp: Cons.IH nodes_addNode hashKey_def split: option.splits)
qed

lemma nodes_New: "nodes (New ids) p = find (\<lambda>x. hashKey h x = p) ids"
  by (simp add: New_def nodes_New_loop [where h' = h])

lemma dom_nodes_New: "dom (nodes (New ids)) = hashKey h ` set ids"
proof -
  have "(nodes (New ids) p \<noteq> None) = (p \<in> hashKey h ` set ids)" for p
    by (auto simp: nodes_New [where h = h] find_None_iff)
  then show ?thesis by (auto simp: dom_def)
qed

lemma nodes_successor_Some:
  assumes "ring_inv h" and "hashRing h \<noteq> []"
  shows "\<exists>x. nodes h (successor (hashRing h) hash) = Some x"
proof -
  have "successor (hashRing h) hash \<in> set (hashRing h)"
  proof (cases "\<exists>p\<in>set (hashRing h). hash \<le> p")
    case True
    then have "{p \<in> set (hashRing h). hash \<le> p} \<noteq> {}" by auto
    then have "Min {p \<in> set (hashRing h). hash \<le> p} \<in> {p \<in> set (hashRing h). hash \<le> p}"
      by (intro Min_in) simp_all
    with True show ?thesis by (simp add: successor_def)
  next
    case False
    with assms(2) show ?thesis by (simp add: successor_def)
  qed
  with assms(1) show ?thesis by (auto simp: ring_inv_def)
qed

lemma successor_in_set: "ring \<noteq> [] \<Longrightarrow> successor ring hash \<in> set ring"
proof (cases "\<exists>p\<in>set ring. hash \<le> p")
  case True
  then have "{p \<in> set ring. hash \<le> p} \<noteq> {}" by auto
  then have "Min {p \<in> set ring. hash \<le> p} \<in> {p \<in> set ring. hash \<le> p}"
    by (intro Min_in) simp_all
  with True show ?thesis by (simp add: successor_def)
next
  case False
  assume "ring \<noteq> []"
  with False show ?thesis by (simp add: successor_def)
qed

lemma successor_remove_other:
  fixes hash :: u32
  assumes "set ring' = set ring - {b}" and "ring \<noteq> []" and "successor ring hash \<noteq> b"
  shows "successor ring' hash = successor ring hash"
proof (cases "\<exists>p\<in>set ring. hash \<le> p")
  case True
  let ?T = "{p \<in> set ring. hash \<le> p}"
  let ?T' = "{p \<in> set ring'. hash \<le> p}"
  have s: "successor ring hash = Min ?T" using True by (simp add: successor_def)
  have "?T \<noteq> {}" using True by auto
  then have "Min ?T \<in> ?T" by (intro Min_in) simp_all
  with s assms(1,3) have m: "Min ?T \<in> ?T'" by auto
  have "Min ?T' = Min ?T"
  proof (rule Min_eqI)
    show "finite ?T'" by simp
    show "Min ?T \<in> ?T'" by (rule m)
    show "\<And>y. y \<in> ?T' \<Longrightarrow> Min ?T \<le> y" using assms(1) by (auto intro: Min_le)
  qed
  moreover have "\<exists>p\<in>set ring'. hash \<le> p" using m by auto
  ultimately show ?thesis using s by (simp add: successor_def)
next
  case False
  then have s: "successor ring hash = Min (set ring)" by (simp add: successor_def)
  have "Min (set ring) \<in> set ring" using assms(2) by simp
  with s assms(1,3) have m: "Min (set ring) \<in> set ring'" by auto
  have "Min (set ring') = Min (set ring)"
  proof (rule Min_eqI)
    show "finite (set ring')" by simp
    show "Min (set ring) \<in> set ring'" by (rule m)
    show "\<And>y. y \<in> set ring' \<Longrightarrow> Min (set ring) \<le> y" using assms(1) by (auto intro: Min_le)
  qed
  moreover have "\<not> (\<exists>p\<in>set ring'. hash \<le> p)" using False assms(1) by auto
  ultimately show ?thesis using s by (simp add: successor_def)
qed

lemma successor_remove_self:
  fixes hash :: u32
  assumes "set ring' = set ring - {b}" and "ring' \<noteq> []" and "ring \<noteq> []"
    and "successor ring hash = b"
  shows "successor ring' hash = clockwise_next ring b"
proof -
  have bin: "b \<in> set ring" using successor_in_set [OF assms(3), of hash] assms(4) by simp
  let ?U = "{q \<in> set ring. b < q}"
  show ?thesis
  proof (cases "\<exists>p\<in>set ring. hash \<le> p")
    case True
    let ?T = "{p \<in> set ring. hash \<le> p}"
    have minT: "Min ?T = b" using True assms(4) by (simp add: successor_def)
    have "?T \<noteq> {}" using True by auto
    then have "Min ?T \<in> ?T" by (intro Min_in) simp_all
    with minT have hb: "hash \<le> b" by simp
    have lb: "b \<le> p" if "p \<in> ?T" for p
      using Min_le [of ?T p] that minT by simp
    have eq: "{p \<in> set ring'. hash \<le> p} = ?U"
    proof (rule set_eqI)
      fix p
      show "p \<in> {p \<in> set ring'. hash \<le> p} \<longleftrightarrow> p \<in> ?U"
      proof
        assume "p \<in> {p \<in> set ring'. hash \<le> p}"
        then have "p \<in> set ring" "p \<noteq> b" "hash \<le> p" using assms(1) by simp_all
        moreover from this have "b \<le> p" using lb [of p] by simp
        ultimately show "p \<in> ?U" by simp
      next
        assume "p \<in> ?U"
        then have "p \<in> set ring" "b < p" by simp_all
        moreover from this hb have "hash \<le> p" by simp
        ultimately show "p \<in> {p \<in> set ring'. hash \<le> p}" using assms(1) by simp
      qed
    qed
    show ?thesis
    proof (cases "\<exists>q\<in>set ring. b < q")
      case True
      then have "\<exists>p\<in>set ring'. hash \<le> p" using eq by blast
      then have "successor ring' hash = Min {p \<in> set ring'. hash \<le> p}"
        by (simp add: successor_def)
      with True eq show ?thesis by (simp add: clockwise_next_def)
    next
      case False
      then have no: "\<not> (\<exists>p\<in>set ring'. hash \<le> p)" using eq by blast
      have below: "p < b" if "p \<in> set ring'" for p
        using that False assms(1) by (auto simp: not_less)
      obtain q where q: "q \<in> set ring'" using assms(2) by (cases ring') auto
      have "Min (set ring) \<in> set ring" using assms(3) by simp
      moreover have "Min (set ring) \<le> q" using q assms(1) by (auto intro: Min_le)
      ultimately have m: "Min (set ring) \<in> set ring'"
        using below [OF q] assms(1) by auto
      have "Min (set ring') = Min (set ring)"
      proof (rule Min_eqI)
        show "finite (set ring')" by simp
        show "Min (set ring) \<in> set ring'" by (rule m)
        show "\<And>y. y \<in> set ring' \<Longrightarrow> Min (set ring) \<le> y"
          using assms(1) by (auto intro: Min_le)
      qed
      with no False show ?thesis by (simp add: successor_def clockwise_next_def)
    qed
  next
    case False
    then have minS: "Min (set ring) = b" using assms(4) by (simp add: successor_def)
    have no: "\<not> (\<exists>p\<in>set ring'. hash \<le> p)" using False assms(1) by auto
    have above: "b < p" if "p \<in> set ring'" for p
    proof -
      from that assms(1) have "p \<in> set ring" "p \<noteq> b" by auto
      moreover from this have "b \<le> p" using Min_le [of "set ring" p] minS by simp
      ultimately show ?thesis by simp
    qed
    have eq: "?U = set ring'"
      using assms(1) above by auto
    obtain q where q: "q \<in> set ring'" using assms(2) by (cases ring') auto
    then have "\<exists>q\<in>set ring. b < q" using eq by blast
    with eq no show ?thesis by (simp add: successor_def clockwise_next_def)
  qed
qed

subsection \<open>Hash values of some strings\<close>

lemma not_u32: "NOT (c::u32) = c XOR 0xFFFFFFFF"
proof -
  have "(0xFFFFFFFF::u32) = - 1" by simp
  then show ?thesis by (simp only: bit.xor_one_right)
qed

lemma crc_bits_8:
  "crc_bits 8 c
     = crc_shift (crc_shift (crc_shift (crc_shift (crc_shift (crc_shift (crc_shift (crc_shift c)))))))"
  by (simp add: eval_nat_numeral)

lemmas hash_eval = hashKey_def ChecksumIEEE_crc32_ieee crc32_ieee_def bytes_def not_u32 crc_bits_8
  crc_shift_def IEEE_def

lemma hashKey_check: "hashKey h ''123456789'' = 0xCBF43926"
  by (simp add: hash_eval)

lemma hashKey_node_a: "hashKey h ''node-a'' = 0x78994dab"
  by (simp add: hash_eval)

lemma hashKey_node_b: "hashKey h ''node-b'' = 0xe1901c11"
  by (simp add: hash_eval)

lemma hashKey_node_c: "hashKey h ''node-c'' = 0x96972c87"
  by (simp add: hash_eval)

lemma hashKey_user_123: "hashKey h ''user-123'' = 0xa2686a4e"
  by (simp add: hash_eval)

lemma hashKey_key_6: "hashKey h ''key-6'' = 0x90882ad9"
  by (simp add: hash_eval)

lemma hashKey_y: "hashKey h ''y'' = 0xfbdb2615"
  by (simp add: hash_eval)

lemma hashKey_plumless: "hashKey h ''plumless'' = 0x4ddb0c25"
  by (simp add: hash_eval)

lemma hashKey_buckeroo: "hashKey h ''buckeroo'' = 0x4ddb0c25"
  by (simp add: hash_eval)

lemma hashKey_key_1: "hashKey h ''key-1'' = 0x0eecbf7a"
  by (simp add: hash_eval)

lemmas hash_values = hashKey_node_a hashKey_node_b hashKey_node_c hashKey_user_123 hashKey_key_6
  hashKey_y hashKey_plumless hashKey_buckeroo

lemma New_abc:
  "New [''node-a'', ''node-b'', ''node-c'']
     = \<lparr>nodes = [0x78994dab \<mapsto> ''node-a'', 0xe1901c11 \<mapsto> ''node-b'', 0x96972c87 \<mapsto> ''node-c''],
        hashRing = [0x78994dab, 0x96972c87, 0xe1901c11]\<rparr>"
  by (simp add: New_def addNode_def sortSlice_def hash_values)

section \<open>The operations of the ring\<close>

text \<open>
  C1: on a ring with at least one position (a reachable ring, whose position sequence is
  sorted) \<^verbatim>\<open>GetNode\<close> returns the identifier stored at the smallest position that is at least
  the hash of the key; if the hash is greater than every position, it returns the identifier
  stored at the smallest position of all; and if the hash is itself a position, it returns the
  identifier stored there.
\<close>

theorem GetNode_clockwise_successor:
  assumes "reachable h" and "hashRing h \<noteq> []"
  shows "((\<exists>p\<in>set (hashRing h). hashKey h k \<le> p) \<longrightarrow>
            (\<exists>x. nodes h (Min {p \<in> set (hashRing h). hashKey h k \<le> p}) = Some x
                \<and> fst (GetNode h k) = Inr x))
       \<and> ((\<forall>p\<in>set (hashRing h). p < hashKey h k) \<longrightarrow>
            (\<exists>x. nodes h (Min (set (hashRing h))) = Some x \<and> fst (GetNode h k) = Inr x))
       \<and> (hashKey h k \<in> set (hashRing h) \<longrightarrow>
            (\<exists>x. nodes h (hashKey h k) = Some x \<and> fst (GetNode h k) = Inr x))"
proof -
  have inv: "ring_inv h" using assms(1) by (rule reachable_ring_inv)
  then have s: "sorted (hashRing h)" by (simp add: ring_inv_def strict_sorted_iff)
  obtain x where x: "nodes h (successor (hashRing h) (hashKey h k)) = Some x"
    using nodes_successor_Some [OF inv assms(2)] by blast
  have g: "fst (GetNode h k) = Inr x"
    using fst_GetNode [OF s assms(2), of k] x by (simp add: mapIndex_def)
  have 1: "(\<exists>p\<in>set (hashRing h). hashKey h k \<le> p) \<longrightarrow>
            (\<exists>x. nodes h (Min {p \<in> set (hashRing h). hashKey h k \<le> p}) = Some x
                \<and> fst (GetNode h k) = Inr x)"
  proof
    assume "\<exists>p\<in>set (hashRing h). hashKey h k \<le> p"
    then have "successor (hashRing h) (hashKey h k)
        = Min {p \<in> set (hashRing h). hashKey h k \<le> p}"
      by (simp add: successor_def)
    with x g show "\<exists>x. nodes h (Min {p \<in> set (hashRing h). hashKey h k \<le> p}) = Some x
        \<and> fst (GetNode h k) = Inr x"
      by simp
  qed
  have 2: "(\<forall>p\<in>set (hashRing h). p < hashKey h k) \<longrightarrow>
            (\<exists>x. nodes h (Min (set (hashRing h))) = Some x \<and> fst (GetNode h k) = Inr x)"
  proof
    assume "\<forall>p\<in>set (hashRing h). p < hashKey h k"
    then have "\<not> (\<exists>p\<in>set (hashRing h). hashKey h k \<le> p)"
      by (auto simp: not_le)
    then have "successor (hashRing h) (hashKey h k) = Min (set (hashRing h))"
      by (simp add: successor_def)
    with x g show "\<exists>x. nodes h (Min (set (hashRing h))) = Some x \<and> fst (GetNode h k) = Inr x"
      by simp
  qed
  have 3: "hashKey h k \<in> set (hashRing h) \<longrightarrow>
            (\<exists>x. nodes h (hashKey h k) = Some x \<and> fst (GetNode h k) = Inr x)"
  proof
    assume m: "hashKey h k \<in> set (hashRing h)"
    have "Min {p \<in> set (hashRing h). hashKey h k \<le> p} = hashKey h k"
      by (rule Min_eqI) (use m in auto)
    with m have "successor (hashRing h) (hashKey h k) = hashKey h k"
      by (auto simp: successor_def)
    with x g show "\<exists>x. nodes h (hashKey h k) = Some x \<and> fst (GetNode h k) = Inr x"
      by simp
  qed
  from 1 2 3 show ?thesis by blast
qed

theorem GetNode_clockwise_successor_witness:
  "reachable (New [''node-a'', ''node-b'', ''node-c''])
   \<and> hashRing (New [''node-a'', ''node-b'', ''node-c'']) \<noteq> []
   \<and> (\<exists>p\<in>set (hashRing (New [''node-a'', ''node-b'', ''node-c''])).
         hashKey (New [''node-a'', ''node-b'', ''node-c'']) ''user-123'' \<le> p)
   \<and> fst (GetNode (New [''node-a'', ''node-b'', ''node-c'']) ''user-123'') = Inr ''node-b''
   \<and> \<not> (\<exists>p\<in>set (hashRing (New [''node-a'', ''node-b'', ''node-c''])).
           hashKey (New [''node-a'', ''node-b'', ''node-c'']) ''y'' \<le> p)
   \<and> fst (GetNode (New [''node-a'', ''node-b'', ''node-c'']) ''y'') = Inr ''node-a''
   \<and> hashKey (New [''node-a'', ''node-b'', ''node-c'']) ''node-c''
        \<in> set (hashRing (New [''node-a'', ''node-b'', ''node-c'']))
   \<and> fst (GetNode (New [''node-a'', ''node-b'', ''node-c'']) ''node-c'') = Inr ''node-c''"
proof -
  let ?h = "New [''node-a'', ''node-b'', ''node-c'']"
  have r: "reachable ?h" by (rule reachable_New)
  have n: "hashRing ?h \<noteq> []" by (simp add: New_abc)
  have s1: "{p \<in> set (hashRing ?h). hashKey ?h ''user-123'' \<le> p} = {0xe1901c11}"
    by (auto simp: New_abc hash_values)
  have s3: "{p \<in> set (hashRing ?h). hashKey ?h ''node-c'' \<le> p} = {0x96972c87, 0xe1901c11}"
    by (auto simp: New_abc hash_values)
  show ?thesis
    using GetNode_clockwise_successor [OF r n, of "''user-123''"]
      GetNode_clockwise_successor [OF r n, of "''y''"]
      GetNode_clockwise_successor [OF r n, of "''node-c''"] r s1 s3
    by (simp add: New_abc hash_values)
qed

text \<open>
  C2: on a ring with zero positions \<^verbatim>\<open>GetNode\<close> returns the empty string for every key,
  and the ring it leaves behind is the ring it was given.
\<close>

theorem GetNode_empty_ring: "length (hashRing h) = 0 \<Longrightarrow> GetNode h key = (Inr [], h)"
  by (simp add: GetNode_def)

theorem GetNode_empty_ring_witness:
  "length (hashRing (New [])) = 0 \<and> GetNode (New []) ''user-123'' = (Inr [], New [])"
  using GetNode_empty_ring [of "New []" "''user-123''"] by (simp add: New_def)

text \<open>
  C3: every ring reachable from \<^verbatim>\<open>New\<close> by calls of the exported methods has a strictly
  ascending position sequence (sorted, no duplicates) whose elements are exactly the keys of
  the position-to-identifier map, and \<^verbatim>\<open>AddNode\<close> and \<^verbatim>\<open>RemoveNode\<close> each preserve this
  invariant.
\<close>

theorem ring_invariant:
  "(reachable h \<longrightarrow> sorted_wrt (<) (hashRing h) \<and> set (hashRing h) = dom (nodes h))
   \<and> (ring_inv h \<longrightarrow> ring_inv (AddNode h x))
   \<and> (ring_inv h \<longrightarrow> ring_inv (RemoveNode h y))"
  using reachable_ring_inv [of h]
  by (simp add: AddNode_def addNode_ring_inv RemoveNode_ring_inv) (simp add: ring_inv_def)

theorem ring_invariant_witness:
  "reachable (New [''node-a'', ''node-b'', ''node-c''])
   \<and> hashRing (New [''node-a'', ''node-b'', ''node-c'']) = [0x78994dab, 0x96972c87, 0xe1901c11]
   \<and> sorted_wrt (<) (hashRing (New [''node-a'', ''node-b'', ''node-c'']))
   \<and> set (hashRing (New [''node-a'', ''node-b'', ''node-c'']))
       = dom (nodes (New [''node-a'', ''node-b'', ''node-c'']))
   \<and> ring_inv (New [''node-a'', ''node-b'', ''node-c''])
   \<and> ring_inv (AddNode (New [''node-a'', ''node-b'', ''node-c'']) ''user-123'')
   \<and> ring_inv (RemoveNode (New [''node-a'', ''node-b'', ''node-c'']) ''node-b'')"
proof -
  have inv: "ring_inv (New [''node-a'', ''node-b'', ''node-c''])"
    by (simp add: New_abc ring_inv_def) auto
  show ?thesis
    using ring_invariant [of "New [''node-a'', ''node-b'', ''node-c'']" "''user-123''" "''node-b''"]
      inv reachable_New [of "[''node-a'', ''node-b'', ''node-c'']"]
    by (simp add: New_abc)
qed

text \<open>
  C4: if the position of \<open>x\<close> is already taken, \<^verbatim>\<open>AddNode\<close> leaves the ring as it is, so
  the identifier inserted first keeps the position and \<open>x\<close> is dropped. "Taken" is what the
  code tests, a key of the map, which on a reachable ring is the same as an element of the
  position sequence. Adding the same identifier a second time changes nothing, in particular
  not the number of positions.
\<close>

theorem AddNode_existing_position:
  "(nodes h (hashKey h x) \<noteq> None \<longrightarrow> AddNode h x = h)
   \<and> (reachable h \<and> hashKey h x \<in> set (hashRing h) \<longrightarrow> AddNode h x = h)
   \<and> AddNode (AddNode h x) x = AddNode h x
   \<and> length (hashRing (AddNode (AddNode h x) x)) = length (hashRing (AddNode h x))"
proof -
  have 1: "nodes h (hashKey h x) \<noteq> None \<longrightarrow> AddNode h x = h"
    by (simp add: AddNode_absorb)
  have 2: "reachable h \<and> hashKey h x \<in> set (hashRing h) \<longrightarrow> AddNode h x = h"
  proof
    assume a: "reachable h \<and> hashKey h x \<in> set (hashRing h)"
    then have "ring_inv h" by (simp add: reachable_ring_inv)
    with a have "nodes h (hashKey h x) \<noteq> None"
      by (auto simp: ring_inv_def)
    then show "AddNode h x = h" by (rule AddNode_absorb)
  qed
  have "nodes (AddNode h x) (hashKey (AddNode h x) x) \<noteq> None"
    using nodes_AddNode_hash [of h x] by (simp add: hashKey_def)
  then have 3: "AddNode (AddNode h x) x = AddNode h x"
    by (rule AddNode_absorb)
  from 1 2 3 show ?thesis by simp
qed

theorem AddNode_existing_position_witness:
  "nodes (New [''plumless'']) (hashKey (New [''plumless'']) ''buckeroo'') \<noteq> None
   \<and> reachable (New [''plumless''])
   \<and> hashKey (New [''plumless'']) ''buckeroo'' \<in> set (hashRing (New [''plumless'']))
   \<and> AddNode (New [''plumless'']) ''buckeroo'' = New [''plumless'']
   \<and> nodes (AddNode (New [''plumless'']) ''buckeroo'') 0x4ddb0c25 = Some ''plumless''
   \<and> length (hashRing (AddNode (AddNode (New [''plumless'']) ''buckeroo'') ''buckeroo'')) = 1"
proof -
  have n: "New [''plumless''] = \<lparr>nodes = [0x4ddb0c25 \<mapsto> ''plumless''], hashRing = [0x4ddb0c25]\<rparr>"
    by (simp add: New_def addNode_def sortSlice_def hash_values)
  have 1: "nodes (New [''plumless'']) (hashKey (New [''plumless'']) ''buckeroo'') \<noteq> None"
    by (simp add: n hash_values)
  have 2: "hashKey (New [''plumless'']) ''buckeroo'' \<in> set (hashRing (New [''plumless'']))"
    by (simp add: n hash_values)
  have 3: "AddNode (New [''plumless'']) ''buckeroo'' = New [''plumless'']"
    using AddNode_existing_position [of "New [''plumless'']" "''buckeroo''"] 1 by simp
  show ?thesis
    using 1 2 3 reachable_New [of "[''plumless'']"] by (simp add: n)
qed

text \<open>
  C5: if the position of \<open>x\<close> is not a key of the map, \<^verbatim>\<open>RemoveNode\<close> leaves the ring as
  it is, so a second removal does nothing. Otherwise, on a reachable ring, it removes the map
  entry of that position and nothing else from the map, and exactly one element, that
  position, from the position sequence: the other positions stay, in the same strictly
  ascending order.
\<close>

theorem RemoveNode_effect:
  "(nodes h (hashKey h x) = None \<longrightarrow> RemoveNode h x = h)
   \<and> RemoveNode (RemoveNode h x) x = RemoveNode h x
   \<and> (reachable h \<and> nodes h (hashKey h x) \<noteq> None \<longrightarrow>
        nodes (RemoveNode h x) = (nodes h)(hashKey h x := None)
        \<and> hashRing (RemoveNode h x) = filter (\<lambda>p. p \<noteq> hashKey h x) (hashRing h)
        \<and> length (hashRing (RemoveNode h x)) + 1 = length (hashRing h)
        \<and> sorted_wrt (<) (hashRing (RemoveNode h x)))"
proof -
  have 1: "nodes h (hashKey h x) = None \<longrightarrow> RemoveNode h x = h"
    by (simp add: RemoveNode_absent)
  have "nodes (RemoveNode h x) (hashKey (RemoveNode h x) x) = None"
    by (simp add: nodes_RemoveNode hashKey_def)
  then have 2: "RemoveNode (RemoveNode h x) x = RemoveNode h x"
    by (rule RemoveNode_absent)
  have 3: "nodes (RemoveNode h x) = (nodes h)(hashKey h x := None)
        \<and> hashRing (RemoveNode h x) = filter (\<lambda>p. p \<noteq> hashKey h x) (hashRing h)
        \<and> length (hashRing (RemoveNode h x)) + 1 = length (hashRing h)
        \<and> sorted_wrt (<) (hashRing (RemoveNode h x))"
    if r: "reachable h" and n: "nodes h (hashKey h x) \<noteq> None"
  proof -
    have inv: "ring_inv h" using r by (rule reachable_ring_inv)
    then have d: "distinct (hashRing h)" and m: "hashKey h x \<in> set (hashRing h)"
      using n by (auto simp: ring_inv_def strict_sorted_iff)
    have ring: "hashRing (RemoveNode h x) = remove1 (hashKey h x) (hashRing h)"
      using n by (auto simp: hashRing_RemoveNode)
    have f: "remove1 (hashKey h x) (hashRing h) = filter (\<lambda>p. p \<noteq> hashKey h x) (hashRing h)"
      using d by (simp add: distinct_remove1_removeAll removeAll_filter_not_eq) metis
    have l: "length (remove1 (hashKey h x) (hashRing h)) + 1 = length (hashRing h)"
      using m by (simp add: length_remove1) (metis length_pos_if_in_set Suc_pred)
    have "ring_inv (RemoveNode h x)" using inv by (rule RemoveNode_ring_inv)
    then have "sorted_wrt (<) (hashRing (RemoveNode h x))" by (simp add: ring_inv_def)
    with ring f l show ?thesis by (simp add: nodes_RemoveNode)
  qed
  from 1 2 3 show ?thesis by blast
qed

theorem RemoveNode_effect_witness:
  "nodes (New [''node-a'', ''node-b'', ''node-c''])
      (hashKey (New [''node-a'', ''node-b'', ''node-c'']) ''user-123'') = None
   \<and> RemoveNode (New [''node-a'', ''node-b'', ''node-c'']) ''user-123''
       = New [''node-a'', ''node-b'', ''node-c'']
   \<and> reachable (New [''node-a'', ''node-b'', ''node-c''])
   \<and> nodes (New [''node-a'', ''node-b'', ''node-c''])
      (hashKey (New [''node-a'', ''node-b'', ''node-c'']) ''node-b'') \<noteq> None
   \<and> hashRing (RemoveNode (New [''node-a'', ''node-b'', ''node-c'']) ''node-b'')
       = [0x78994dab, 0x96972c87]
   \<and> nodes (RemoveNode (New [''node-a'', ''node-b'', ''node-c'']) ''node-b'') 0xe1901c11 = None"
  using RemoveNode_effect [of "New [''node-a'', ''node-b'', ''node-c'']" "''user-123''"]
    RemoveNode_effect [of "New [''node-a'', ''node-b'', ''node-c'']" "''node-b''"]
    reachable_New [of "[''node-a'', ''node-b'', ''node-c'']"]
  by (simp add: New_abc hash_values)

text \<open>
  C6: \<^verbatim>\<open>hashKey\<close> does not depend on the ring it is called on, so two evaluations on the
  same string agree whatever happened to the ring in between. Its value is what the library's
  \<^verbatim>\<open>ChecksumIEEE\<close> gives for the bytes of the string, and that is the CRC-32 with the IEEE
  polynomial of these bytes. The check value of that checksum, for the string "123456789", is
  \<^verbatim>\<open>0xCBF43926\<close>.
\<close>

theorem hashKey_crc32:
  "hashKey h s = hashKey h' s
   \<and> hashKey h s = ChecksumIEEE (bytes s)
   \<and> hashKey h s = crc32_ieee (bytes s)
   \<and> hashKey h ''123456789'' = 0xCBF43926"
proof -
  have "hashKey h s = ChecksumIEEE (bytes s)" by (simp add: hashKey_def)
  moreover have "hashKey h' s = ChecksumIEEE (bytes s)" by (simp add: hashKey_def)
  moreover have "ChecksumIEEE (bytes s) = crc32_ieee (bytes s)" by (rule ChecksumIEEE_crc32_ieee)
  ultimately show ?thesis by (simp add: hashKey_check)
qed

text \<open>
  C7: minimal disruption. Take a reachable ring on which \<open>A\<close>, \<open>B\<close> and \<open>C\<close> are registered at
  three distinct positions, and any key. If the successor position of the key is that of \<open>A\<close>
  or of \<open>C\<close> (or any position but that of \<open>B\<close>), \<^verbatim>\<open>GetNode\<close> returns the same node after
  \<^verbatim>\<open>RemoveNode(B)\<close> as before. If it is the position of \<open>B\<close>, the key was served by \<open>B\<close> and
  is served afterwards by another node, the one stored at the position that follows \<open>B\<close>
  clockwise.
\<close>

theorem minimal_disruption:
  assumes "reachable h"
    and "nodes h (hashKey h A) = Some A"
    and "nodes h (hashKey h B) = Some B"
    and "nodes h (hashKey h C) = Some C"
    and "distinct [hashKey h A, hashKey h B, hashKey h C]"
  shows "(successor (hashRing h) (hashKey h k) = hashKey h A \<longrightarrow>
            fst (GetNode h k) = Inr A \<and> fst (GetNode (RemoveNode h B) k) = Inr A)
       \<and> (successor (hashRing h) (hashKey h k) = hashKey h C \<longrightarrow>
            fst (GetNode h k) = Inr C \<and> fst (GetNode (RemoveNode h B) k) = Inr C)
       \<and> (successor (hashRing h) (hashKey h k) \<noteq> hashKey h B \<longrightarrow>
            fst (GetNode (RemoveNode h B) k) = fst (GetNode h k))
       \<and> (successor (hashRing h) (hashKey h k) = hashKey h B \<longrightarrow>
            fst (GetNode h k) = Inr B
            \<and> (\<exists>y. nodes h (clockwise_next (hashRing h) (hashKey h B)) = Some y \<and> y \<noteq> B
                 \<and> fst (GetNode (RemoveNode h B) k) = Inr y))"
proof -
  let ?h' = "RemoveNode h B"
  let ?s = "successor (hashRing h) (hashKey h k)"
  have inv: "ring_inv h" using assms(1) by (rule reachable_ring_inv)
  have own: "owner_inv h" using assms(1) by (rule reachable_owner_inv)
  have inv': "ring_inv ?h'" using inv by (rule RemoveNode_ring_inv)
  have srt: "sorted (hashRing h)" and dst: "distinct (hashRing h)"
    using inv by (simp_all add: ring_inv_def strict_sorted_iff)
  have srt': "sorted (hashRing ?h')"
    using inv' by (simp add: ring_inv_def strict_sorted_iff)
  have "hashRing ?h' = remove1 (hashKey h B) (hashRing h)"
    using assms(3) by (simp add: hashRing_RemoveNode)
  then have set': "set (hashRing ?h') = set (hashRing h) - {hashKey h B}"
    using dst by simp
  have ain: "hashKey h A \<in> set (hashRing h)"
    using inv assms(2) by (auto simp: ring_inv_def)
  then have ne: "hashRing h \<noteq> []" by (cases "hashRing h") simp_all
  have "hashKey h A \<noteq> hashKey h B" using assms(5) by simp
  with ain have "hashKey h A \<in> set (hashRing ?h')" by (simp add: set')
  then have ne': "hashRing ?h' \<noteq> []" by (cases "hashRing ?h'") simp_all
  have nodes': "nodes ?h' p = nodes h p" if "p \<noteq> hashKey h B" for p
    using that by (simp add: nodes_RemoveNode)
  have before: "fst (GetNode h k) = Inr (mapIndex (nodes h) ?s)"
    by (rule fst_GetNode [OF srt ne])
  have "fst (GetNode ?h' k)
      = Inr (mapIndex (nodes ?h') (successor (hashRing ?h') (hashKey ?h' k)))"
    by (rule fst_GetNode [OF srt' ne'])
  then have after: "fst (GetNode ?h' k)
      = Inr (mapIndex (nodes ?h') (successor (hashRing ?h') (hashKey h k)))"
    by (simp add: hashKey_def)
  have other: "fst (GetNode ?h' k) = fst (GetNode h k)" if "?s \<noteq> hashKey h B"
  proof -
    have "successor (hashRing ?h') (hashKey h k) = ?s"
      by (rule successor_remove_other [OF set' ne that])
    with after before nodes' [OF that] show ?thesis by (simp add: mapIndex_def)
  qed
  have 1: "?s = hashKey h A \<longrightarrow>
      fst (GetNode h k) = Inr A \<and> fst (GetNode ?h' k) = Inr A"
  proof
    assume a: "?s = hashKey h A"
    then have "?s \<noteq> hashKey h B" using assms(5) by simp
    from other [OF this] before a assms(2)
    show "fst (GetNode h k) = Inr A \<and> fst (GetNode ?h' k) = Inr A"
      by (simp add: mapIndex_def)
  qed
  have 2: "?s = hashKey h C \<longrightarrow>
      fst (GetNode h k) = Inr C \<and> fst (GetNode ?h' k) = Inr C"
  proof
    assume a: "?s = hashKey h C"
    have "hashKey h B \<noteq> hashKey h C" using assms(5) by simp
    with a have "?s \<noteq> hashKey h B" by metis
    from other [OF this] before a assms(4)
    show "fst (GetNode h k) = Inr C \<and> fst (GetNode ?h' k) = Inr C"
      by (simp add: mapIndex_def)
  qed
  have 3: "?s = hashKey h B \<longrightarrow>
      fst (GetNode h k) = Inr B
      \<and> (\<exists>y. nodes h (clockwise_next (hashRing h) (hashKey h B)) = Some y \<and> y \<noteq> B
           \<and> fst (GetNode ?h' k) = Inr y)"
  proof
    assume b: "?s = hashKey h B"
    let ?q = "clockwise_next (hashRing h) (hashKey h B)"
    have q: "successor (hashRing ?h') (hashKey h k) = ?q"
      by (rule successor_remove_self [OF set' ne' ne b])
    have "successor (hashRing ?h') (hashKey h k) \<in> set (hashRing ?h')"
      by (rule successor_in_set [OF ne'])
    with q set' have qin: "?q \<in> set (hashRing h)" and qne: "?q \<noteq> hashKey h B" by auto
    from qin inv obtain y where y: "nodes h ?q = Some y"
      by (auto simp: ring_inv_def)
    with own have "hashKey h y = ?q" by (simp add: owner_inv_def)
    with qne have "y \<noteq> B" by auto
    moreover have "fst (GetNode ?h' k) = Inr y"
      using after q nodes' [OF qne] y by (simp add: mapIndex_def)
    moreover have "fst (GetNode h k) = Inr B"
      using before b assms(3) by (simp add: mapIndex_def)
    ultimately show "fst (GetNode h k) = Inr B
      \<and> (\<exists>y. nodes h ?q = Some y \<and> y \<noteq> B \<and> fst (GetNode ?h' k) = Inr y)"
      using y by simp
  qed
  from 1 2 3 other show ?thesis by blast
qed

theorem minimal_disruption_witness:
  "reachable (New [''node-a'', ''node-b'', ''node-c''])
   \<and> nodes (New [''node-a'', ''node-b'', ''node-c''])
       (hashKey (New [''node-a'', ''node-b'', ''node-c'']) ''node-a'') = Some ''node-a''
   \<and> nodes (New [''node-a'', ''node-b'', ''node-c''])
       (hashKey (New [''node-a'', ''node-b'', ''node-c'']) ''node-b'') = Some ''node-b''
   \<and> nodes (New [''node-a'', ''node-b'', ''node-c''])
       (hashKey (New [''node-a'', ''node-b'', ''node-c'']) ''node-c'') = Some ''node-c''
   \<and> distinct [hashKey (New [''node-a'', ''node-b'', ''node-c'']) ''node-a'',
                hashKey (New [''node-a'', ''node-b'', ''node-c'']) ''node-b'',
                hashKey (New [''node-a'', ''node-b'', ''node-c'']) ''node-c'']
   \<and> successor (hashRing (New [''node-a'', ''node-b'', ''node-c'']))
        (hashKey (New [''node-a'', ''node-b'', ''node-c'']) ''key-1'')
       = hashKey (New [''node-a'', ''node-b'', ''node-c'']) ''node-a''
   \<and> fst (GetNode (RemoveNode (New [''node-a'', ''node-b'', ''node-c'']) ''node-b'') ''key-1'')
       = Inr ''node-a''
   \<and> successor (hashRing (New [''node-a'', ''node-b'', ''node-c'']))
        (hashKey (New [''node-a'', ''node-b'', ''node-c'']) ''key-6'')
       = hashKey (New [''node-a'', ''node-b'', ''node-c'']) ''node-c''
   \<and> fst (GetNode (New [''node-a'', ''node-b'', ''node-c'']) ''key-6'') = Inr ''node-c''
   \<and> fst (GetNode (RemoveNode (New [''node-a'', ''node-b'', ''node-c'']) ''node-b'') ''key-6'')
       = Inr ''node-c''
   \<and> successor (hashRing (New [''node-a'', ''node-b'', ''node-c'']))
        (hashKey (New [''node-a'', ''node-b'', ''node-c'']) ''user-123'')
       = hashKey (New [''node-a'', ''node-b'', ''node-c'']) ''node-b''
   \<and> fst (GetNode (New [''node-a'', ''node-b'', ''node-c'']) ''user-123'') = Inr ''node-b''
   \<and> clockwise_next (hashRing (New [''node-a'', ''node-b'', ''node-c'']))
        (hashKey (New [''node-a'', ''node-b'', ''node-c'']) ''node-b'')
       = hashKey (New [''node-a'', ''node-b'', ''node-c'']) ''node-a''
   \<and> fst (GetNode (RemoveNode (New [''node-a'', ''node-b'', ''node-c'']) ''node-b'') ''user-123'')
       = Inr ''node-a''"
proof -
  let ?h = "New [''node-a'', ''node-b'', ''node-c'']"
  have r: "reachable ?h" by (rule reachable_New)
  have a: "nodes ?h (hashKey ?h ''node-a'') = Some ''node-a''"
    and b: "nodes ?h (hashKey ?h ''node-b'') = Some ''node-b''"
    and c: "nodes ?h (hashKey ?h ''node-c'') = Some ''node-c''"
    and d: "distinct [hashKey ?h ''node-a'', hashKey ?h ''node-b'', hashKey ?h ''node-c'']"
    by (simp_all add: New_abc hash_values)
  have t1: "{p \<in> set (hashRing ?h). hashKey ?h ''key-1'' \<le> p}
      = {0x78994dab, 0x96972c87, 0xe1901c11}"
    by (auto simp: New_abc hash_values hashKey_key_1)
  have t6: "{p \<in> set (hashRing ?h). hashKey ?h ''key-6'' \<le> p} = {0x96972c87, 0xe1901c11}"
    by (auto simp: New_abc hash_values)
  have tu: "{p \<in> set (hashRing ?h). hashKey ?h ''user-123'' \<le> p} = {0xe1901c11}"
    by (auto simp: New_abc hash_values)
  have tb: "{q \<in> set (hashRing ?h). hashKey ?h ''node-b'' < q} = {}"
    by (auto simp: New_abc hash_values)
  have s1: "successor (hashRing ?h) (hashKey ?h ''key-1'') = hashKey ?h ''node-a''"
    unfolding successor_def t1 by (simp add: New_abc hash_values hashKey_key_1)
  have s6: "successor (hashRing ?h) (hashKey ?h ''key-6'') = hashKey ?h ''node-c''"
    unfolding successor_def t6 by (simp add: New_abc hash_values)
  have su: "successor (hashRing ?h) (hashKey ?h ''user-123'') = hashKey ?h ''node-b''"
    unfolding successor_def tu by (simp add: New_abc hash_values)
  have nx: "clockwise_next (hashRing ?h) (hashKey ?h ''node-b'') = hashKey ?h ''node-a''"
    using tb by (simp add: clockwise_next_def New_abc hash_values)
  show ?thesis
    using minimal_disruption [OF r a b c d, of "''key-1''"]
      minimal_disruption [OF r a b c d, of "''key-6''"]
      minimal_disruption [OF r a b c d, of "''user-123''"]
      r a b c d s1 s6 su nx
    by simp
qed

text \<open>
  C8: \<^verbatim>\<open>New\<close> returns the ring obtained from the empty ring by adding the identifiers in
  the given order. Its positions are the hashes of the identifiers, one position for each
  distinct hash; the identifier stored at a position is the first one in the list with that
  hash (first writer wins). Where no two distinct identifiers collide there is one position
  for each distinct identifier.
\<close>

theorem New_adds_in_order:
  "New ids = foldl AddNode \<lparr>nodes = Map.empty, hashRing = []\<rparr> ids
   \<and> set (hashRing (New ids)) = hashKey (New ids) ` set ids
   \<and> length (hashRing (New ids)) = card (hashKey (New ids) ` set ids)
   \<and> nodes (New ids) p = find (\<lambda>x. hashKey (New ids) x = p) ids
   \<and> (inj_on (hashKey (New ids)) (set ids) \<longrightarrow> length (hashRing (New ids)) = card (set ids))"
proof -
  have inv: "ring_inv (New ids)" by (rule New_ring_inv)
  then have s: "set (hashRing (New ids)) = hashKey (New ids) ` set ids"
    by (simp add: ring_inv_def dom_nodes_New [where h = "New ids"])
  have "distinct (hashRing (New ids))"
    using inv by (simp add: ring_inv_def strict_sorted_iff)
  then have l: "length (hashRing (New ids)) = card (hashKey (New ids) ` set ids)"
    using s by (metis distinct_card)
  have f: "New ids = foldl AddNode \<lparr>nodes = Map.empty, hashRing = []\<rparr> ids"
    by (simp add: New_def New_loop_foldl)
  have n: "nodes (New ids) p = find (\<lambda>x. hashKey (New ids) x = p) ids"
    by (rule nodes_New)
  have i: "inj_on (hashKey (New ids)) (set ids) \<longrightarrow> length (hashRing (New ids)) = card (set ids)"
    using l by (simp add: card_image)
  from f s l n i show ?thesis by blast
qed

theorem New_adds_in_order_witness:
  "inj_on (hashKey (New [''node-a'', ''node-b'', ''node-c''])) (set [''node-a'', ''node-b'', ''node-c''])
   \<and> length (hashRing (New [''node-a'', ''node-b'', ''node-c''])) = 3
   \<and> nodes (New [''node-a'', ''node-b'', ''node-c'']) 0x96972c87 = Some ''node-c''
   \<and> length (hashRing (New [''plumless'', ''buckeroo''])) = 1
   \<and> nodes (New [''plumless'', ''buckeroo'']) 0x4ddb0c25 = Some ''plumless''"
proof -
  have i: "inj_on (hashKey (New [''node-a'', ''node-b'', ''node-c'']))
      (set [''node-a'', ''node-b'', ''node-c''])"
    by (simp add: hash_values)
  have c: "hashKey (New [''plumless'', ''buckeroo'']) ` set [''plumless'', ''buckeroo'']
      = {0x4ddb0c25}"
    by (simp add: hash_values)
  show ?thesis
    using New_adds_in_order [of "[''node-a'', ''node-b'', ''node-c'']" "0x96972c87", THEN conjunct2]
      New_adds_in_order [of "[''plumless'', ''buckeroo'']" "0x4ddb0c25", THEN conjunct2] i c
    by (simp add: hash_values)
qed

text \<open>
  C10: on a reachable ring whose map has no entry at the position of \<open>x\<close>, adding \<open>x\<close> and
  then removing \<open>x\<close> gives back the ring: the same map and the same position sequence.
\<close>

theorem AddNode_RemoveNode_roundtrip:
  assumes "reachable h" and "nodes h (hashKey h x) = None"
  shows "RemoveNode (AddNode h x) x = h"
proof -
  have inv: "ring_inv h" using assms(1) by (rule reachable_ring_inv)
  then have s: "sorted (hashRing h)" by (simp add: ring_inv_def strict_sorted_iff)
  have k: "hashKey (addNode h x) x = hashKey h x" by (simp add: hashKey_def)
  have n: "nodes (RemoveNode (AddNode h x) x) = nodes h"
    using assms(2) by (auto simp: nodes_RemoveNode AddNode_def k nodes_addNode)
  have "hashRing (RemoveNode (AddNode h x) x)
      = remove1 (hashKey h x) (sort (hashRing h @ [hashKey h x]))"
    using assms(2) by (simp add: hashRing_RemoveNode AddNode_def k nodes_addNode hashRing_addNode)
  also have "\<dots> = hashRing h"
    using s by (simp add: sort_snoc_sorted)
  finally have r: "hashRing (RemoveNode (AddNode h x) x) = hashRing h" .
  have "ConsistentHash.more (RemoveNode (AddNode h x) x) = ConsistentHash.more h" by simp
  with n r show ?thesis by (simp add: ConsistentHash.equality)
qed

theorem AddNode_RemoveNode_roundtrip_witness:
  "reachable (New [''node-a'', ''node-b''])
   \<and> nodes (New [''node-a'', ''node-b'']) (hashKey (New [''node-a'', ''node-b'']) ''node-c'') = None
   \<and> hashRing (AddNode (New [''node-a'', ''node-b'']) ''node-c'')
       = [0x78994dab, 0x96972c87, 0xe1901c11]
   \<and> RemoveNode (AddNode (New [''node-a'', ''node-b'']) ''node-c'') ''node-c''
       = New [''node-a'', ''node-b'']"
proof -
  have n: "New [''node-a'', ''node-b'']
      = \<lparr>nodes = [0x78994dab \<mapsto> ''node-a'', 0xe1901c11 \<mapsto> ''node-b''],
         hashRing = [0x78994dab, 0xe1901c11]\<rparr>"
    by (simp add: New_def addNode_def sortSlice_def hash_values)
  have a: "nodes (New [''node-a'', ''node-b''])
      (hashKey (New [''node-a'', ''node-b'']) ''node-c'') = None"
    by (simp add: n hash_values)
  have r: "hashRing (AddNode (New [''node-a'', ''node-b'']) ''node-c'')
       = [0x78994dab, 0x96972c87, 0xe1901c11]"
    by (simp add: n AddNode_def addNode_def sortSlice_def hash_values)
  show ?thesis
    using AddNode_RemoveNode_roundtrip [OF reachable_New a] a r reachable_New [of "[''node-a'', ''node-b'']"]
    by simp
qed

end
